theory Spec2Isabelle
  imports Main "HOL-Library.AList"
begin

section \<open>Python strings\<close>

text \<open>
  The decoder of \<^verbatim>\<open>test_streaming.py\<close> works on Python \<^verbatim>\<open>str\<close> values
  (\<^verbatim>\<open>iter_content(..., decode_unicode=True)\<close>), which are sequences of Unicode code
  points. A string is therefore a list of code points; \<open>str\<close> turns a literal into one.
\<close>

type_synonym pystr = "nat list"

definition str :: "string \<Rightarrow> pystr" where
  "str cs = map of_char cs"

abbreviation NL :: nat where "NL \<equiv> 10"
abbreviation CR :: nat where "CR \<equiv> 13"
abbreviation SPACE :: nat where "SPACE \<equiv> 32"
abbreviation QUOTE :: nat where "QUOTE \<equiv> 34"
abbreviation BACKSLASH :: nat where "BACKSLASH \<equiv> 92"

text \<open>\<^verbatim>\<open>str.isspace\<close> for one code point: the characters that \<^verbatim>\<open>str.strip()\<close> removes.\<close>

definition isspace :: "nat \<Rightarrow> bool" where
  "isspace c =
     ((9 \<le> c \<and> c \<le> 13) \<or> (28 \<le> c \<and> c \<le> 32) \<or> c = 133 \<or> c = 160 \<or> c = 5760
      \<or> (8192 \<le> c \<and> c \<le> 8202) \<or> c = 8232 \<or> c = 8233 \<or> c = 8239 \<or> c = 8287
      \<or> c = 12288)"

text \<open>\<^verbatim>\<open>s.strip()\<close>\<close>

definition strip :: "pystr \<Rightarrow> pystr" where
  "strip s = rev (dropWhile isspace (rev (dropWhile isspace s)))"

text \<open>\<^verbatim>\<open>s.rstrip(chars)\<close>: every trailing character that occurs in \<open>chars\<close> is removed.\<close>

definition rstrip :: "pystr \<Rightarrow> pystr \<Rightarrow> pystr" where
  "rstrip chars s = rev (dropWhile (\<lambda>c. c \<in> set chars) (rev s))"

text \<open>\<^verbatim>\<open>s.startswith(p)\<close>\<close>

fun startswith :: "pystr \<Rightarrow> pystr \<Rightarrow> bool" where
  "startswith [] s = True"
| "startswith (p # ps) [] = False"
| "startswith (p # ps) (c # cs) = (p = c \<and> startswith ps cs)"

text \<open>\<^verbatim>\<open>p in s\<close> for two strings: \<open>p\<close> occurs in \<open>s\<close> as a contiguous substring.\<close>

fun contains :: "pystr \<Rightarrow> pystr \<Rightarrow> bool" where
  "contains p [] = (p = [])"
| "contains p (c # cs) = (startswith p (c # cs) \<or> contains p cs)"

text \<open>
  \<^verbatim>\<open>data.replace('\\n', '\n')\<close>: scanning from the left, each non-overlapping occurrence of
  the two characters backslash, \<open>n\<close> becomes one newline character.
\<close>

fun replace_escaped_newlines :: "pystr \<Rightarrow> pystr" where
  "replace_escaped_newlines (a # b # r) =
     (if a = BACKSLASH \<and> b = 110 then NL # replace_escaped_newlines r
      else a # replace_escaped_newlines (b # r))"
| "replace_escaped_newlines s = s"


section \<open>JSON values and \<^verbatim>\<open>json.loads\<close>\<close>

text \<open>
  The values \<^verbatim>\<open>json.loads\<close> returns: \<^verbatim>\<open>None\<close>, \<^verbatim>\<open>bool\<close>, \<^verbatim>\<open>int\<close> (unbounded),
  \<^verbatim>\<open>float\<close>, \<^verbatim>\<open>str\<close>, \<^verbatim>\<open>list\<close> and \<^verbatim>\<open>dict\<close>. A float is kept as the text of its
  literal (or of the constants \<^verbatim>\<open>NaN\<close>, \<^verbatim>\<open>Infinity\<close>, \<^verbatim>\<open>-Infinity\<close>), so no floating-point
  arithmetic is involved. A dict is an association list with distinct keys in insertion
  order.
\<close>

datatype json =
    JNull
  | JBool bool
  | JInt int
  | JFloat pystr
  | JString pystr
  | JArray "json list"
  | JObject "(pystr \<times> json) list"

text \<open>
  The exceptions that reach the decoder. \<open>RecursionError\<close> stands for the parser running
  out of its recursion budget; \<open>json_loads_result\<close> below shows that the budget given by
  \<open>json_loads\<close> is never used up, so the model parses a text of any nesting depth. The
  limits of the interpreter (recursion depth, digits of an integer literal) and the
  failures of \<^verbatim>\<open>print\<close> and of the transport are outside the model.
\<close>

datatype exn = JSONDecodeError | TypeError | KeyError | RecursionError

text \<open>\<^verbatim>\<open>WHITESPACE = re.compile(r'[ \t\n\r]*')\<close>\<close>

definition json_ws :: "nat \<Rightarrow> bool" where
  "json_ws c = (c = SPACE \<or> c = 9 \<or> c = NL \<or> c = CR)"

definition skip_ws :: "pystr \<Rightarrow> pystr" where
  "skip_ws s = dropWhile json_ws s"

definition isdigit :: "nat \<Rightarrow> bool" where
  "isdigit c = (48 \<le> c \<and> c \<le> 57)"

definition hexval :: "nat \<Rightarrow> nat option" where
  "hexval c =
     (if 48 \<le> c \<and> c \<le> 57 then Some (c - 48)
      else if 65 \<le> c \<and> c \<le> 70 then Some (c - 55)
      else if 97 \<le> c \<and> c \<le> 102 then Some (c - 87)
      else None)"

text \<open>
  \<^verbatim>\<open>_decode_uXXXX\<close>: the four characters after the \<open>u\<close> must be hexadecimal digits; the
  result is their value.
\<close>

definition decode_uXXXX :: "pystr \<Rightarrow> nat option" where
  "decode_uXXXX s =
     (case map hexval (take 4 s) of
        [Some a, Some b, Some c, Some d] \<Rightarrow> Some (((a * 16 + b) * 16 + c) * 16 + d)
      | _ \<Rightarrow> None)"

text \<open>The table \<^verbatim>\<open>BACKSLASH\<close> of one-character escapes.\<close>

definition backslash_escape :: "nat \<Rightarrow> nat option" where
  "backslash_escape e =
     (if e = QUOTE then Some QUOTE
      else if e = BACKSLASH then Some BACKSLASH
      else if e = 47 then Some 47
      else if e = 98 then Some 8
      else if e = 102 then Some 12
      else if e = 110 then Some NL
      else if e = 114 then Some CR
      else if e = 116 then Some 9
      else None)"

text \<open>
  \<^verbatim>\<open>scanstring(s, end, strict=True)\<close>, entered after the opening quote. \<open>acc\<close> is the text
  decoded so far. The result is the decoded string and the input after the closing
  quote; \<open>None\<close> is a \<^verbatim>\<open>JSONDecodeError\<close> (unterminated string, raw control character,
  invalid escape). A high surrogate escape followed by a low surrogate escape is one
  code point.
\<close>

fun scanstring :: "pystr \<Rightarrow> pystr \<Rightarrow> (pystr \<times> pystr) option" where
  "scanstring acc [] = None"
| "scanstring acc (c # r) =
     (if c = QUOTE then Some (acc, r)
      else if c = BACKSLASH then
        (case r of
           [] \<Rightarrow> None
         | e # r' \<Rightarrow>
             if e \<noteq> 117 then
               (case backslash_escape e of
                  None \<Rightarrow> None
                | Some ch \<Rightarrow> scanstring (acc @ [ch]) r')
             else
               (case decode_uXXXX r' of
                  None \<Rightarrow> None
                | Some uni \<Rightarrow>
                    if 55296 \<le> uni \<and> uni \<le> 56319 \<and> take 2 (drop 4 r') = [BACKSLASH, 117] then
                      (case decode_uXXXX (drop 6 r') of
                         None \<Rightarrow> None
                       | Some uni2 \<Rightarrow>
                           if 56320 \<le> uni2 \<and> uni2 \<le> 57343 then
                             scanstring
                               (acc @ [65536 + ((uni - 55296) * 1024 + (uni2 - 56320))])
                               (drop 10 r')
                           else scanstring (acc @ [uni]) (drop 4 r'))
                    else scanstring (acc @ [uni]) (drop 4 r')))
      else if c < 32 then None
      else scanstring (acc @ [c]) r)"

text \<open>\<^verbatim>\<open>int(integer)\<close> on a run of decimal digits.\<close>

definition digits_value :: "pystr \<Rightarrow> int" where
  "digits_value ds = foldl (\<lambda>a d. 10 * a + int (d - 48)) 0 ds"

text \<open>
  \<^verbatim>\<open>NUMBER_RE = (-?(?:0|[1-9]\d*))(\.\d+)?([eE][-+]?\d+)?\<close> matched at the start of \<open>s\<close>,
  with the scanner's conversion: an \<^verbatim>\<open>int\<close> when there is neither fraction nor exponent,
  a \<^verbatim>\<open>float\<close> otherwise.
\<close>

definition match_number :: "pystr \<Rightarrow> (json \<times> pystr) option" where
  "match_number s =
     (let neg = (case s of [] \<Rightarrow> False | c # _ \<Rightarrow> c = 45);
          s1 = (if neg then drop 1 s else s)
      in case s1 of
           [] \<Rightarrow> None
         | d # r \<Rightarrow>
             if \<not> isdigit d then None
             else
               let ds = (if d = 48 then [d] else d # takeWhile isdigit r);
                   r1 = (if d = 48 then r else dropWhile isdigit r);
                   fds = (case r1 of [] \<Rightarrow> [] | c # t \<Rightarrow>
                            if c = 46 then takeWhile isdigit t else []);
                   frac = (if fds = [] then [] else 46 # fds);
                   r2 = drop (length frac) r1;
                   ex = (case r2 of [] \<Rightarrow> [] | c # t \<Rightarrow>
                           if c = 101 \<or> c = 69 then
                             (let sg = (case t of [] \<Rightarrow> [] | g # _ \<Rightarrow>
                                          if g = 43 \<or> g = 45 then [g] else []);
                                  eds = takeWhile isdigit (drop (length sg) t)
                              in if eds = [] then [] else c # sg @ eds)
                           else []);
                   r3 = drop (length ex) r2;
                   integer = (if neg then [45] else []) @ ds
               in if frac = [] \<and> ex = []
                  then Some (JInt (if neg then - digits_value ds else digits_value ds), r3)
                  else Some (JFloat (integer @ frac @ ex), r3))"

text \<open>\<^verbatim>\<open>dict(pairs)\<close>: a repeated key keeps its first position and takes the last value.\<close>

definition py_dict :: "(pystr \<times> json) list \<Rightarrow> (pystr \<times> json) list" where
  "py_dict pairs = foldl (\<lambda>d kv. AList.update (fst kv) (snd kv) d) [] pairs"

text \<open>
  \<^verbatim>\<open>scan_once\<close> with \<^verbatim>\<open>JSONArray\<close> and \<^verbatim>\<open>JSONObject\<close>. The first argument bounds the
  depth of the calls; \<open>Inl RecursionError\<close> is returned when it is used up. In
  \<open>scan_once\<close>, \<^verbatim>\<open>StopIteration\<close> is already turned into the \<^verbatim>\<open>JSONDecodeError\<close> that
  every caller makes of it. \<open>array_items\<close> is the loop of \<^verbatim>\<open>JSONArray\<close>, entered at the
  start of a value; \<open>object_items\<close> is the loop of \<^verbatim>\<open>JSONObject\<close>, entered after the
  opening quote of a key.
\<close>

fun scan_once :: "nat \<Rightarrow> pystr \<Rightarrow> exn + (json \<times> pystr)"
  and array_items :: "nat \<Rightarrow> json list \<Rightarrow> pystr \<Rightarrow> exn + (json \<times> pystr)"
  and object_items :: "nat \<Rightarrow> (pystr \<times> json) list \<Rightarrow> pystr \<Rightarrow> exn + (json \<times> pystr)"
where
  "scan_once 0 s = Inl RecursionError"
| "scan_once (Suc n) s =
     (case s of
        [] \<Rightarrow> Inl JSONDecodeError
      | c # r \<Rightarrow>
          if c = QUOTE then
            (case scanstring [] r of
               None \<Rightarrow> Inl JSONDecodeError
             | Some (v, r') \<Rightarrow> Inr (JString v, r'))
          else if c = 123 then
            (case skip_ws r of
               [] \<Rightarrow> Inl JSONDecodeError
             | d # r' \<Rightarrow>
                 if d = 125 then Inr (JObject [], r')
                 else if d = QUOTE then object_items n [] r'
                 else Inl JSONDecodeError)
          else if c = 91 then
            (case skip_ws r of
               [] \<Rightarrow> Inl JSONDecodeError
             | d # r' \<Rightarrow>
                 if d = 93 then Inr (JArray [], r')
                 else array_items n [] (d # r'))
          else if startswith (str ''null'') s then Inr (JNull, drop 4 s)
          else if startswith (str ''true'') s then Inr (JBool True, drop 4 s)
          else if startswith (str ''false'') s then Inr (JBool False, drop 5 s)
          else
            (case match_number s of
               Some res \<Rightarrow> Inr res
             | None \<Rightarrow>
                 if startswith (str ''NaN'') s then Inr (JFloat (str ''NaN''), drop 3 s)
                 else if startswith (str ''Infinity'') s
                   then Inr (JFloat (str ''Infinity''), drop 8 s)
                 else if startswith (str ''-Infinity'') s
                   then Inr (JFloat (str ''-Infinity''), drop 9 s)
                 else Inl JSONDecodeError))"
| "array_items 0 vs s = Inl RecursionError"
| "array_items (Suc n) vs s =
     (case scan_once n s of
        Inl e \<Rightarrow> Inl e
      | Inr (v, r) \<Rightarrow>
          (case skip_ws r of
             [] \<Rightarrow> Inl JSONDecodeError
           | d # r' \<Rightarrow>
               if d = 93 then Inr (JArray (vs @ [v]), r')
               else if d = 44 then array_items n (vs @ [v]) (skip_ws r')
               else Inl JSONDecodeError))"
| "object_items 0 pairs s = Inl RecursionError"
| "object_items (Suc n) pairs s =
     (case scanstring [] s of
        None \<Rightarrow> Inl JSONDecodeError
      | Some (key, r1) \<Rightarrow>
          (case skip_ws r1 of
             [] \<Rightarrow> Inl JSONDecodeError
           | c # r2 \<Rightarrow>
               if c \<noteq> 58 then Inl JSONDecodeError
               else
                 (case scan_once n (skip_ws r2) of
                    Inl e \<Rightarrow> Inl e
                  | Inr (v, r3) \<Rightarrow>
                      (case skip_ws r3 of
                         [] \<Rightarrow> Inl JSONDecodeError
                       | d # r4 \<Rightarrow>
                           if d = 125 then Inr (JObject (py_dict (pairs @ [(key, v)])), r4)
                           else if d = 44 then
                             (case skip_ws r4 of
                                [] \<Rightarrow> Inl JSONDecodeError
                              | q # r5 \<Rightarrow>
                                  if q = QUOTE then object_items n (pairs @ [(key, v)]) r5
                                  else Inl JSONDecodeError)
                           else Inl JSONDecodeError))))"

text \<open>
  \<^verbatim>\<open>json.loads(s)\<close> for a \<^verbatim>\<open>str\<close>: skip whitespace, decode one value, skip whitespace,
  and fail on extra data. A leading byte-order mark U+FEFF is rejected first.
\<close>

definition json_loads :: "pystr \<Rightarrow> exn + json" where
  "json_loads s =
     (if startswith [65279] s then Inl JSONDecodeError
      else
        (case scan_once (2 * length s + 2) (skip_ws s) of
           Inl e \<Rightarrow> Inl e
         | Inr (v, r) \<Rightarrow> if skip_ws r = [] then Inr v else Inl JSONDecodeError))"


section \<open>The SSE decoder of \<^verbatim>\<open>StreamingTester\<close>\<close>

text \<open>
  The decoder reports what it decodes by printing. Each \<^verbatim>\<open>print\<close> call is one event:
  \<^item> \<open>EventName\<close>: the \<^verbatim>\<open>event:\<close> line (\<^verbatim>\<open>Event: ...\<close>);
  \<^item> \<open>Terminator\<close>: the \<^verbatim>\<open>[DONE]\<close> payload (\<^verbatim>\<open>Stream complete\<close>);
  \<^item> \<open>StructuredPayload v d\<close>: \<^verbatim>\<open>_handle_json_data\<close> was called with the parsed value
    \<open>v\<close> and printed \<open>d\<close>;
  \<^item> \<open>TextPayload\<close>: the text printed when the payload is not JSON;
  \<^item> \<open>RawLine\<close>: the \<^verbatim>\<open>Raw: ...\<close> line;
  \<^item> \<open>ParseError\<close>: \<^verbatim>\<open>Error parsing stream\<close>, printed by \<^verbatim>\<open>_parse_sse_stream\<close> when an
    exception ends the loop.
\<close>

datatype dispatch = Content json | Message json | Error json | Data json

datatype event =
    EventName pystr
  | Terminator
  | StructuredPayload json dispatch
  | TextPayload pystr
  | RawLine pystr
  | ParseError exn

text \<open>
  \<^verbatim>\<open>_handle_json_data(data)\<close>. The tests \<^verbatim>\<open>'content' in data\<close> and the subscripts
  \<^verbatim>\<open>data['content']\<close> are Python's: on a dict they look up a key; on a list the test
  compares the elements and the subscript raises \<^verbatim>\<open>TypeError\<close>; on a string the test is
  a substring test and the subscript raises \<^verbatim>\<open>TypeError\<close>; on \<^verbatim>\<open>None\<close>, a bool or a
  number the test itself raises \<^verbatim>\<open>TypeError\<close>.
\<close>

definition py_in :: "pystr \<Rightarrow> json \<Rightarrow> exn + bool" where
  "py_in k data =
     (case data of
        JObject kvs \<Rightarrow> Inr (map_of kvs k \<noteq> None)
      | JArray vs \<Rightarrow> Inr (JString k \<in> set vs)
      | JString t \<Rightarrow> Inr (contains k t)
      | _ \<Rightarrow> Inl TypeError)"

definition py_getitem :: "json \<Rightarrow> pystr \<Rightarrow> exn + json" where
  "py_getitem data k =
     (case data of
        JObject kvs \<Rightarrow> (case map_of kvs k of Some v \<Rightarrow> Inr v | None \<Rightarrow> Inl KeyError)
      | _ \<Rightarrow> Inl TypeError)"

definition handle_json_data :: "json \<Rightarrow> exn + dispatch" where
  "handle_json_data data =
     (case py_in (str ''content'') data of
        Inl e \<Rightarrow> Inl e
      | Inr True \<Rightarrow> map_sum id Content (py_getitem data (str ''content''))
      | Inr False \<Rightarrow>
          (case py_in (str ''message'') data of
             Inl e \<Rightarrow> Inl e
           | Inr True \<Rightarrow> map_sum id Message (py_getitem data (str ''message''))
           | Inr False \<Rightarrow>
               (case py_in (str ''error'') data of
                  Inl e \<Rightarrow> Inl e
                | Inr True \<Rightarrow> map_sum id Error (py_getitem data (str ''error''))
                | Inr False \<Rightarrow> Inr (Data data))))"

text \<open>
  Lines 128 to 131 of \<^verbatim>\<open>_process_sse_line\<close>: \<^verbatim>\<open>raw = line[5:]\<close>, and one leading space
  of \<open>raw\<close> is removed when there is one.
\<close>

definition data_payload :: "pystr \<Rightarrow> pystr" where
  "data_payload line =
     (let raw = drop 5 line in if startswith [SPACE] raw then drop 1 raw else raw)"

text \<open>
  Lines 133 to 146: the payload \<^verbatim>\<open>[DONE]\<close> ends the line with \<open>Terminator\<close>; any other
  payload has its escaped newlines replaced and is then given to \<^verbatim>\<open>json.loads\<close>. Only
  \<^verbatim>\<open>json.JSONDecodeError\<close> is caught; any other exception leaves the function.
\<close>

definition process_data :: "pystr \<Rightarrow> exn + event list" where
  "process_data data =
     (if data = str ''[DONE]'' then Inr [Terminator]
      else
        let text = replace_escaped_newlines data
        in case json_loads text of
             Inr parsed \<Rightarrow>
               (case handle_json_data parsed of
                  Inl JSONDecodeError \<Rightarrow> Inr [TextPayload text]
                | Inl e \<Rightarrow> Inl e
                | Inr d \<Rightarrow> Inr [StructuredPayload parsed d])
           | Inl JSONDecodeError \<Rightarrow> Inr [TextPayload text]
           | Inl e \<Rightarrow> Inl e)"

text \<open>
  \<^verbatim>\<open>_process_sse_line(line)\<close>: the events the line prints, or the exception that leaves
  the function (nothing is printed before an exception is raised).
\<close>

definition process_sse_line :: "pystr \<Rightarrow> exn + event list" where
  "process_sse_line line =
     (if strip line = [] then Inr []
      else if startswith (str ''event:'') line then Inr [EventName (strip (drop 6 line))]
      else if startswith (str ''data:'') line then process_data (data_payload line)
      else if startswith (str '':'') line then Inr []
      else Inr [RawLine line])"

text \<open>
  The loop \<^verbatim>\<open>while '\n' in buffer\<close> of \<^verbatim>\<open>_parse_sse_stream\<close>: split at the first newline,
  strip the trailing carriage returns of the line, process it. The result is the events
  printed and either the exception that ended the loop or the buffer that is left.
\<close>

function process_lines :: "pystr \<Rightarrow> event list \<times> (exn + pystr)" where
  "process_lines buffer =
     (if NL \<in> set buffer then
        (let line = takeWhile (\<lambda>c. c \<noteq> NL) buffer;
             buffer' = drop 1 (dropWhile (\<lambda>c. c \<noteq> NL) buffer)
         in case process_sse_line (rstrip [CR] line) of
              Inl e \<Rightarrow> ([], Inl e)
            | Inr evs \<Rightarrow>
                (case process_lines buffer' of (evs', st) \<Rightarrow> (evs @ evs', st)))
      else ([], Inr buffer))"
  by pat_completeness auto
termination
proof (relation "measure length")
  show "wf (measure length)" by simp
next
  fix buffer :: pystr and line buffer'
  assume m: "NL \<in> set buffer"
    and b: "buffer' = drop 1 (dropWhile (\<lambda>c. c \<noteq> NL) buffer)"
  from m have "dropWhile (\<lambda>c. c \<noteq> NL) buffer \<noteq> []"
    by simp
  then have "length (drop 1 (dropWhile (\<lambda>c. c \<noteq> NL) buffer))
               < length (dropWhile (\<lambda>c. c \<noteq> NL) buffer)"
    by (cases "dropWhile (\<lambda>c. c \<noteq> NL) buffer") simp_all
  also have "\<dots> \<le> length buffer"
    by (rule length_dropWhile_le)
  finally show "(buffer', buffer) \<in> measure length"
    using b by simp
qed

text \<open>
  One pass of the \<^verbatim>\<open>for chunk in ...\<close> loop: an empty chunk is skipped (\<^verbatim>\<open>if chunk:\<close>),
  any other chunk is appended to the buffer and the complete lines are processed.
\<close>

definition feed :: "pystr \<Rightarrow> pystr \<Rightarrow> event list \<times> (exn + pystr)" where
  "feed buffer chunk =
     (if chunk \<noteq> [] then process_lines (buffer @ chunk) else ([], Inr buffer))"

text \<open>
  The \<^verbatim>\<open>for chunk in ...\<close> loop: the chunks are fed in order with the buffer carried
  from one to the next; an exception ends the loop, and the chunks after it are never
  read.
\<close>

fun feed_all :: "pystr \<Rightarrow> pystr list \<Rightarrow> event list \<times> (exn + pystr)" where
  "feed_all buffer [] = ([], Inr buffer)"
| "feed_all buffer (chunk # chunks) =
     (case feed buffer chunk of
        (evs, Inl e) \<Rightarrow> (evs, Inl e)
      | (evs, Inr buffer') \<Rightarrow>
          (case feed_all buffer' chunks of (evs', st) \<Rightarrow> (evs @ evs', st)))"

text \<open>
  \<^verbatim>\<open>_parse_sse_stream\<close>: the buffer starts empty, and \<^verbatim>\<open>except Exception\<close> prints the
  exception that ended the loop. The result is everything printed.
\<close>

definition parse_sse_stream :: "pystr list \<Rightarrow> event list" where
  "parse_sse_stream chunks =
     (case feed_all [] chunks of
        (evs, Inl e) \<Rightarrow> evs @ [ParseError e]
      | (evs, Inr buffer) \<Rightarrow> evs)"

text \<open>
  A predicate for the proofs about the parser: a result is either the decode error or a
  value together with a rest of the input that is shorter than the input.
\<close>

definition consumes :: "pystr \<Rightarrow> exn + (json \<times> pystr) \<Rightarrow> bool" where
  "consumes s res = (case res of Inl e \<Rightarrow> e = JSONDecodeError | Inr (v, r) \<Rightarrow> length r < length s)"

declare process_lines.simps [simp del]


section \<open>Evaluation rules\<close>

text \<open>
  The recursion budget of \<open>scan_once\<close> is a numeral in concrete runs; these are the
  defining equations for a numeral budget.
\<close>

lemmas scan_numeral =
  scan_once.simps(2) [of "pred_numeral k" for k, folded numeral_eq_Suc]
  array_items.simps(2) [of "pred_numeral k" for k, folded numeral_eq_Suc]
  object_items.simps(2) [of "pred_numeral k" for k, folded numeral_eq_Suc]

lemmas json_eval =
  json_loads_def skip_ws_def json_ws_def decode_uXXXX_def hexval_def scan_numeral
  backslash_escape_def match_number_def isdigit_def digits_value_def py_dict_def

lemmas decoder_eval =
  str_def strip_def isspace_def rstrip_def data_payload_def process_data_def
  process_sse_line_def handle_json_data_def py_in_def py_getitem_def
  process_lines.simps feed_def parse_sse_stream_def Let_def


section \<open>\<^verbatim>\<open>json.loads\<close> returns a value or raises \<^verbatim>\<open>JSONDecodeError\<close>\<close>

text \<open>
  Every call of the parser works on a shorter input than its caller, so a budget of twice
  the length of the text is never used up.
\<close>

lemma consumes_simps [simp]:
  "consumes s (Inl e) = (e = JSONDecodeError)"
  "consumes s (Inr p) = (length (snd p) < length s)"
  by (simp_all add: consumes_def split: prod.splits)

lemma consumes_mono: "consumes s' res \<Longrightarrow> length s' \<le> length s \<Longrightarrow> consumes s res"
  by (auto simp add: consumes_def split: sum.splits)

lemma length_skip_ws: "length (skip_ws s) \<le> length s"
  by (simp add: skip_ws_def length_dropWhile_le)

lemma skip_ws_Cons: "skip_ws s = c # r \<Longrightarrow> length r < length s"
  using length_skip_ws [of s] by simp

lemma scanstring_length: "scanstring acc s = Some (v, r) \<Longrightarrow> length r < length s"
proof (induction s arbitrary: acc rule: length_induct)
  case (1 s)
  show ?case
  proof (cases s)
    case Nil
    with "1.prems" show ?thesis by simp
  next
    case (Cons c t)
    have sub: "length r < length s"
      if "scanstring acc' u = Some (v, r)" and "length u \<le> length t" for acc' u
    proof -
      from that(2) Cons have "length u < length s" by simp
      with 1 that(1) have "length r < length u" by blast
      with \<open>length u < length s\<close> show ?thesis by simp
    qed
    show ?thesis
    proof (cases "c = QUOTE")
      case True
      with "1.prems" Cons show ?thesis by simp
    next
      case nq: False
      show ?thesis
      proof (cases "c = BACKSLASH")
        case False
        with nq "1.prems" Cons have "scanstring (acc @ [c]) t = Some (v, r)"
          by (simp split: if_splits)
        then show ?thesis by (rule sub) simp
      next
        case True
        with nq "1.prems" Cons obtain e t' where t: "t = e # t'"
          by (cases t) simp_all
        show ?thesis
        proof (cases "e = 117")
          case False
          with True nq "1.prems" Cons t obtain ch where
            "scanstring (acc @ [ch]) t' = Some (v, r)"
            by (auto split: option.splits)
          then show ?thesis by (rule sub) (simp add: t)
        next
          case u: True
          with True nq "1.prems" Cons t obtain acc' k where
            "scanstring acc' (drop k t') = Some (v, r)"
            by (simp split: option.splits if_splits)
          then show ?thesis by (rule sub) (simp add: t)
        qed
      qed
    qed
  qed
qed


lemma match_number_length: "match_number s = Some (v, r) \<Longrightarrow> length r < length s"
proof -
  assume a: "match_number s = Some (v, r)"
  define s1 where "s1 = (if (case s of [] \<Rightarrow> False | c # _ \<Rightarrow> c = 45) then drop 1 s else s)"
  have s1: "length s1 \<le> length s" by (simp add: s1_def)
  from a obtain d t where c: "s1 = d # t"
    unfolding match_number_def Let_def s1_def [symmetric]
    by (cases s1) simp_all
  define r1 where "r1 = (if d = 48 then t else dropWhile isdigit t)"
  have r1: "length r1 \<le> length t" by (simp add: r1_def length_dropWhile_le)
  from a c have "length r \<le> length r1"
    unfolding match_number_def Let_def s1_def [symmetric] r1_def
    by (auto split: if_splits)
  with r1 s1 c show ?thesis by simp
qed


lemma scan_once_step:
  assumes obj: "\<And>ps u. 2 * length u < n \<Longrightarrow> consumes u (object_items n ps u)"
    and arr: "\<And>vs u. 2 * length u + 1 < n \<Longrightarrow> consumes u (array_items n vs u)"
    and n: "2 * length s < Suc n"
  shows "consumes s (scan_once (Suc n) s)"
proof (cases s)
  case Nil
  then show ?thesis by simp
next
  case (Cons c r)
  have kw: "length (drop k s) < length s" if "0 < k" for k
    using that Cons by simp
  show ?thesis
  proof (cases "c = QUOTE")
    case True
    then show ?thesis
      using Cons by (auto split: option.splits dest: scanstring_length)
  next
    case nq: False
    show ?thesis
    proof (cases "c = 123")
      case True
      show ?thesis
      proof (cases "skip_ws r")
        case Nil
        with True nq Cons show ?thesis by simp
      next
        case (Cons d r')
        then have l: "length r' < length r" by (rule skip_ws_Cons)
        with n \<open>s = c # r\<close> have "2 * length r' < n" by simp
        then have "consumes r' (object_items n [] r')" by (rule obj)
        then have "consumes s (object_items n [] r')"
          by (rule consumes_mono) (use l \<open>s = c # r\<close> in simp)
        with True nq Cons \<open>s = c # r\<close> l show ?thesis by simp
      qed
    next
      case no: False
      show ?thesis
      proof (cases "c = 91")
        case True
        show ?thesis
        proof (cases "skip_ws r")
          case Nil
          with True nq no Cons show ?thesis by simp
        next
          case (Cons d r')
          then have l: "length r' < length r" by (rule skip_ws_Cons)
          with n \<open>s = c # r\<close> have "2 * length (d # r') + 1 < n" by simp
          then have "consumes (d # r') (array_items n [] (d # r'))" by (rule arr)
          then have "consumes s (array_items n [] (d # r'))"
            by (rule consumes_mono) (use l \<open>s = c # r\<close> in simp)
          with True nq no Cons \<open>s = c # r\<close> l show ?thesis by simp
        qed
      next
        case False
        have mn: "length (snd res) < length s" if "match_number s = Some res" for res
          using that match_number_length [of s "fst res" "snd res"] by simp
        have "length (drop 3 s) < length s" "length (drop 4 s) < length s"
          "length (drop 5 s) < length s" "length (drop 8 s) < length s"
          "length (drop 9 s) < length s"
          using Cons by simp_all
        note d = this
        have eq: "scan_once (Suc n) s =
          (if startswith (str ''null'') s then Inr (JNull, drop 4 s)
           else if startswith (str ''true'') s then Inr (JBool True, drop 4 s)
           else if startswith (str ''false'') s then Inr (JBool False, drop 5 s)
           else
             (case match_number s of
                Some res \<Rightarrow> Inr res
              | None \<Rightarrow>
                  if startswith (str ''NaN'') s then Inr (JFloat (str ''NaN''), drop 3 s)
                  else if startswith (str ''Infinity'') s
                    then Inr (JFloat (str ''Infinity''), drop 8 s)
                  else if startswith (str ''-Infinity'') s
                    then Inr (JFloat (str ''-Infinity''), drop 9 s)
                  else Inl JSONDecodeError))"
          unfolding Cons using nq no False by simp
        show ?thesis
          unfolding eq using d mn
          by (simp del: length_drop split: option.splits)
      qed
    qed
  qed
qed


lemma array_items_step:
  assumes sc: "\<And>u. 2 * length u < n \<Longrightarrow> consumes u (scan_once n u)"
    and arr: "\<And>vs u. 2 * length u + 1 < n \<Longrightarrow> consumes u (array_items n vs u)"
    and n: "2 * length s + 1 < Suc n"
  shows "consumes s (array_items (Suc n) vs s)"
proof -
  from n have "consumes s (scan_once n s)" by (intro sc) simp
  then show ?thesis
  proof (cases "scan_once n s")
    case (Inl e)
    with \<open>consumes s (scan_once n s)\<close> show ?thesis by simp
  next
    case (Inr p)
    obtain v r where p: "p = (v, r)" by (cases p)
    with Inr \<open>consumes s (scan_once n s)\<close> have r: "length r < length s" by simp
    show ?thesis
    proof (cases "skip_ws r")
      case Nil
      with Inr p show ?thesis by simp
    next
      case (Cons d r')
      then have l: "length r' < length r" by (rule skip_ws_Cons)
      have "length (skip_ws r') \<le> length r'" by (rule length_skip_ws)
      with l r n have "2 * length (skip_ws r') + 1 < n" by simp
      then have "consumes (skip_ws r') (array_items n (vs @ [v]) (skip_ws r'))" by (rule arr)
      then have "consumes s (array_items n (vs @ [v]) (skip_ws r'))"
        by (rule consumes_mono) (use l r \<open>length (skip_ws r') \<le> length r'\<close> in simp)
      with Inr p Cons l r show ?thesis by simp
    qed
  qed
qed


lemma object_items_step:
  assumes sc: "\<And>u. 2 * length u < n \<Longrightarrow> consumes u (scan_once n u)"
    and obj: "\<And>ps u. 2 * length u < n \<Longrightarrow> consumes u (object_items n ps u)"
    and n: "2 * length s < Suc n"
  shows "consumes s (object_items (Suc n) ps s)"
proof (cases "scanstring [] s")
  case None
  then show ?thesis by simp
next
  case (Some kr)
  obtain key r1 where kr: "kr = (key, r1)" by (cases kr)
  with Some have r1: "length r1 < length s" by (auto dest: scanstring_length)
  show ?thesis
  proof (cases "skip_ws r1")
    case Nil
    with Some kr show ?thesis by simp
  next
    case c: (Cons c r2)
    then have r2: "length r2 < length r1" by (rule skip_ws_Cons)
    show ?thesis
    proof (cases "c = 58")
      case False
      with Some kr c show ?thesis by simp
    next
      case colon: True
      have w: "length (skip_ws r2) \<le> length r2" by (rule length_skip_ws)
      with r1 r2 n have "2 * length (skip_ws r2) < n" by simp
      then have cv: "consumes (skip_ws r2) (scan_once n (skip_ws r2))" by (rule sc)
      show ?thesis
      proof (cases "scan_once n (skip_ws r2)")
        case (Inl e)
        with cv Some kr c colon show ?thesis by simp
      next
        case (Inr p)
        obtain v r3 where p: "p = (v, r3)" by (cases p)
        with Inr cv have r3: "length r3 < length (skip_ws r2)" by simp
        show ?thesis
        proof (cases "skip_ws r3")
          case Nil
          with Some kr c colon Inr p show ?thesis by simp
        next
          case d: (Cons d r4)
          then have r4: "length r4 < length r3" by (rule skip_ws_Cons)
          show ?thesis
          proof (cases "skip_ws r4")
            case Nil
            with Some kr c colon Inr p d r1 r2 r3 r4 w show ?thesis by simp
          next
            case q: (Cons q r5)
            then have r5: "length r5 < length r4" by (rule skip_ws_Cons)
            with r1 r2 r3 r4 w n have "2 * length r5 < n" by simp
            then have "consumes r5 (object_items n (ps @ [(key, v)]) r5)" by (rule obj)
            then have "consumes s (object_items n (ps @ [(key, v)]) r5)"
              by (rule consumes_mono) (use r1 r2 r3 r4 r5 w in simp)
            with Some kr c colon Inr p d q r1 r2 r3 r4 w show ?thesis by simp
          qed
        qed
      qed
    qed
  qed
qed



lemma scan_consumes:
  "(\<forall>s. 2 * length s < n \<longrightarrow> consumes s (scan_once n s))
   \<and> (\<forall>vs s. 2 * length s + 1 < n \<longrightarrow> consumes s (array_items n vs s))
   \<and> (\<forall>ps s. 2 * length s < n \<longrightarrow> consumes s (object_items n ps s))"
proof (induction n)
  case 0
  show ?case by simp
next
  case (Suc n)
  then have sc: "\<And>u. 2 * length u < n \<Longrightarrow> consumes u (scan_once n u)"
    and arr: "\<And>vs u. 2 * length u + 1 < n \<Longrightarrow> consumes u (array_items n vs u)"
    and obj: "\<And>ps u. 2 * length u < n \<Longrightarrow> consumes u (object_items n ps u)"
    by blast+
  show ?case
    using scan_once_step [OF obj arr] array_items_step [OF sc arr] object_items_step [OF sc obj]
    by blast
qed

lemma json_loads_result: "json_loads s = Inl JSONDecodeError \<or> (\<exists>v. json_loads s = Inr v)"
proof -
  define res where "res = scan_once (2 * length s + 2) (skip_ws s)"
  have "length (skip_ws s) \<le> length s" by (rule length_skip_ws)
  then have "2 * length (skip_ws s) < 2 * length s + 2" by simp
  with scan_consumes [of "2 * length s + 2"] have c: "consumes (skip_ws s) res"
    unfolding res_def by blast
  have "json_loads s =
     (if startswith [65279] s then Inl JSONDecodeError
      else
        (case res of
           Inl e \<Rightarrow> Inl e
         | Inr (v, r) \<Rightarrow> if skip_ws r = [] then Inr v else Inl JSONDecodeError))"
    by (simp only: json_loads_def res_def)
  with c show ?thesis
    by (cases res) (auto split: prod.splits)
qed


section \<open>Splitting the buffer into lines\<close>

lemma process_lines_no_newline: "NL \<notin> set b \<Longrightarrow> process_lines b = ([], Inr b)"
  by (subst process_lines.simps) simp

lemma process_lines_line:
  assumes "NL \<notin> set l"
  shows "process_lines (l @ NL # rest) =
     (case process_sse_line (rstrip [CR] l) of
        Inl e \<Rightarrow> ([], Inl e)
      | Inr evs \<Rightarrow> (case process_lines rest of (evs', st) \<Rightarrow> (evs @ evs', st)))"
proof -
  from assms have t: "takeWhile (\<lambda>c. c \<noteq> NL) (l @ NL # rest) = l"
    by (subst takeWhile_append2) auto
  from assms have d: "dropWhile (\<lambda>c. c \<noteq> NL) (l @ NL # rest) = NL # rest"
    by (subst dropWhile_append2) auto
  show ?thesis
    by (subst process_lines.simps) (simp add: t d Let_def del: takeWhile_append dropWhile_append)
qed

text \<open>
  Processing \<open>a @ b\<close> is processing \<open>a\<close> and then, unless an exception ended it, what
  \<open>a\<close> left over followed by \<open>b\<close>.
\<close>

lemma process_lines_append:
  "process_lines (a @ b) =
     (case process_lines a of
        (evs, Inl e) \<Rightarrow> (evs, Inl e)
      | (evs, Inr buf) \<Rightarrow> (case process_lines (buf @ b) of (evs', st) \<Rightarrow> (evs @ evs', st)))"
proof (induction a rule: length_induct)
  case (1 a)
  show ?case
  proof (cases "NL \<in> set a")
    case False
    then show ?thesis by (simp add: process_lines_no_newline split: prod.splits)
  next
    case True
    then obtain l rest where a: "a = l @ NL # rest" and l: "NL \<notin> set l"
      by (auto dest: split_list_first)
    have ih: "process_lines (rest @ b) =
       (case process_lines rest of
          (evs, Inl e) \<Rightarrow> (evs, Inl e)
        | (evs, Inr buf) \<Rightarrow> (case process_lines (buf @ b) of (evs', st) \<Rightarrow> (evs @ evs', st)))"
      using 1 a by simp
    have "process_lines (a @ b) = process_lines (l @ NL # (rest @ b))"
      using a by simp
    then show ?thesis
      unfolding a
      by (simp only: process_lines_line [OF l] ih)
         (simp split: sum.splits prod.splits)
  qed
qed

lemma feed_Nil: "feed buffer [] = ([], Inr buffer)"
  by (simp add: feed_def)

lemma feed_append:
  "feed buffer (a @ b) =
     (case feed buffer a of
        (evs, Inl e) \<Rightarrow> (evs, Inl e)
      | (evs, Inr buffer') \<Rightarrow> (case feed buffer' b of (evs', st) \<Rightarrow> (evs @ evs', st)))"
proof (cases "a = []")
  case True
  then show ?thesis by (simp add: feed_Nil split: prod.splits)
next
  case a: False
  show ?thesis
  proof (cases "b = []")
    case True
    then show ?thesis by (simp add: feed_Nil split: prod.splits sum.splits)
  next
    case False
    with a show ?thesis
      using process_lines_append [of "buffer @ a" b]
      by (simp add: feed_def split: prod.splits sum.splits)
  qed
qed

lemma feed_all_concat: "feed_all buffer chunks = feed buffer (concat chunks)"
proof (induction chunks arbitrary: buffer)
  case Nil
  show ?case by (simp add: feed_Nil)
next
  case (Cons c cs)
  show ?case
    by (simp add: feed_append [of buffer c "concat cs"] Cons.IH)
qed



text \<open>One whole line, however it is cut into chunks, fed to the empty buffer.\<close>

lemma feed_all_one_line:
  assumes "concat chunks = l @ [NL]" and "NL \<notin> set l"
  shows "feed_all [] chunks =
     (case process_sse_line (rstrip [CR] l) of
        Inl e \<Rightarrow> ([], Inl e)
      | Inr evs \<Rightarrow> (evs, Inr []))"
  using assms process_lines_line [of l "[]"]
  by (simp add: feed_all_concat feed_def process_lines_no_newline split: sum.splits)


section \<open>Lines and payloads\<close>

lemma rstrip_replicate:
  assumes "body = [] \<or> last body \<noteq> c"
  shows "rstrip [c] (body @ replicate k c) = body"
proof -
  have "dropWhile (\<lambda>x. x \<in> set [c]) (replicate k c @ rev body) = dropWhile (\<lambda>x. x \<in> set [c]) (rev body)"
    by (induction k) simp_all
  moreover have "dropWhile (\<lambda>x. x \<in> set [c]) (rev body) = rev body"
    using assms by (cases body rule: rev_cases) simp_all
  ultimately show ?thesis by (simp add: rstrip_def)
qed


lemma all_dropWhile: "(\<forall>x\<in>set (dropWhile P s). P x) \<longleftrightarrow> (\<forall>x\<in>set s. P x)"
  by (induction s) auto

lemma strip_empty_iff: "strip s = [] \<longleftrightarrow> (\<forall>c\<in>set s. isspace c)"
  by (simp add: strip_def dropWhile_eq_Nil_conv all_dropWhile)

lemma process_sse_line_data:
  "process_sse_line (str ''data:'' @ r) = process_data (data_payload (str ''data:'' @ r))"
  by (simp add: process_sse_line_def str_def strip_empty_iff isspace_def)

lemma data_payload_data:
  "data_payload (str ''data:'' @ r) = (if startswith [SPACE] r then drop 1 r else r)"
  by (simp add: data_payload_def str_def)

lemma replace_escaped_newlines_append:
  "replace_escaped_newlines (a @ BACKSLASH # 110 # b)
     = replace_escaped_newlines a @ NL # replace_escaped_newlines b"
  by (induction a rule: replace_escaped_newlines.induct) simp_all

lemma replace_escaped_newlines_id:
  "\<not> contains [BACKSLASH, 110] d \<Longrightarrow> replace_escaped_newlines d = d"
  by (induction d rule: replace_escaped_newlines.induct) auto

lemma process_data_text:
  assumes "d \<noteq> str ''[DONE]''"
    and "json_loads (replace_escaped_newlines d) = Inl JSONDecodeError"
  shows "process_data d = Inr [TextPayload (replace_escaped_newlines d)]"
  using assms by (simp add: process_data_def)

lemma process_data_cong:
  assumes "d \<noteq> str ''[DONE]''" and "d' \<noteq> str ''[DONE]''"
    and "replace_escaped_newlines d = replace_escaped_newlines d'"
  shows "process_data d = process_data d'"
  using assms by (simp add: process_data_def)

lemma feed_done: "feed [] (str ''data: [DONE]\<newline>'') = ([Terminator], Inr [])"
  by (simp add: decoder_eval)





section \<open>The claims\<close>




text \<open>
  Claim C2. The claim says that a payload that is valid JSON but not an object raises
  nothing and is emitted as text. The code does neither: for the payload \<^verbatim>\<open>42\<close>,
  \<^verbatim>\<open>json.loads\<close> returns the number, \<^verbatim>\<open>'content' in 42\<close> raises \<^verbatim>\<open>TypeError\<close>, which
  \<^verbatim>\<open>except json.JSONDecodeError\<close> does not catch; the exception leaves the line
  processing and ends the decoding of the stream, so that the line after it is never
  decoded. An array without the strings \<^verbatim>\<open>content\<close>, \<^verbatim>\<open>message\<close>, \<^verbatim>\<open>error\<close> raises nothing
  but is printed as structured data, not as text.
\<close>

theorem bare_number_payload_raises:
  "json_loads (str ''42'') = Inr (JInt 42)
   \<and> process_sse_line (str ''data: 42'') = Inl TypeError
   \<and> parse_sse_stream [str ''data: 42\<newline>data: hi\<newline>''] = [ParseError TypeError]
   \<and> process_sse_line (str ''data: [1, 2]'')
       = Inr [StructuredPayload (JArray [JInt 1, JInt 2]) (Data (JArray [JInt 1, JInt 2]))]"
  by (simp add: decoder_eval json_eval)

text \<open>
  Claim C3, as amended. The line \<^verbatim>\<open>data: [DONE]\<close>, fed to a fresh decoder in any chunking,
  emits exactly one \<open>Terminator\<close> and nothing else, and leaves the buffer empty. The
  decoder keeps no record of it: whatever is fed afterwards is decoded as by a fresh
  decoder, and its events follow the \<open>Terminator\<close>.
\<close>

theorem done_emits_terminator_and_decoding_continues:
  assumes "concat cs = str ''data: [DONE]\<newline>''"
  shows "feed_all [] cs = ([Terminator], Inr [])
     \<and> parse_sse_stream cs = [Terminator]
     \<and> feed_all [] (cs @ chunks) = (case feed_all [] chunks of (evs, st) \<Rightarrow> (Terminator # evs, st))
     \<and> parse_sse_stream (cs @ chunks) = Terminator # parse_sse_stream chunks"
proof -
  have a: "feed_all [] cs = ([Terminator], Inr [])"
    using assms by (simp add: feed_all_concat feed_done)
  have b: "feed_all [] (cs @ chunks) = (case feed_all [] chunks of (evs, st) \<Rightarrow> (Terminator # evs, st))"
    using assms feed_append [of "[]" "concat cs" "concat chunks"]
    by (simp add: feed_all_concat feed_done)
  from a b show ?thesis
    by (simp add: parse_sse_stream_def split: prod.splits sum.splits)
qed

theorem done_emits_terminator_and_decoding_continues_witness:
  "parse_sse_stream [str ''data: [D'', str ''ONE]\<newline>''] = [Terminator]
   \<and> parse_sse_stream [str ''data: [D'', str ''ONE]\<newline>'', str ''event: end\<newline>'']
       = [Terminator, EventName (str ''end'')]"
proof -
  have c: "concat [str ''data: [D'', str ''ONE]\<newline>''] = str ''data: [DONE]\<newline>''"
    by (simp add: str_def)
  have e: "parse_sse_stream [str ''event: end\<newline>''] = [EventName (str ''end'')]"
    by (simp add: decoder_eval)
  from done_emits_terminator_and_decoding_continues [OF c, of "[str ''event: end\<newline>'']"] e
  show ?thesis by simp
qed

text \<open>
  The claim as stated fails: a data line fed after the terminator line still emits its
  event.
\<close>

theorem events_after_terminator:
  "parse_sse_stream [str ''data: [DONE]\<newline>'', str ''data: hi\<newline>'']
     = [Terminator, TextPayload (str ''hi'')]"
  by (simp add: decoder_eval json_eval)

text \<open>
  Claim C4. The escaped newlines of a data payload are replaced before the JSON parse:
  a payload other than \<^verbatim>\<open>[DONE]\<close> whose unescaped text is not JSON is emitted as a
  \<open>TextPayload\<close> of the unescaped text, and two payloads with the same unescaped text are
  treated alike, whatever they would parse to before unescaping. The replacement turns
  every backslash-n into one newline and changes nothing else. A data line is
  processed as its payload.
\<close>

theorem unescape_before_json_parse:
  "(d \<noteq> str ''[DONE]'' \<and> json_loads (replace_escaped_newlines d) = Inl JSONDecodeError
      \<longrightarrow> process_data d = Inr [TextPayload (replace_escaped_newlines d)])
   \<and> (d \<noteq> str ''[DONE]'' \<and> d' \<noteq> str ''[DONE]''
        \<and> replace_escaped_newlines d = replace_escaped_newlines d'
      \<longrightarrow> process_data d = process_data d')
   \<and> replace_escaped_newlines (a @ BACKSLASH # 110 # b)
        = replace_escaped_newlines a @ NL # replace_escaped_newlines b
   \<and> (\<not> contains [BACKSLASH, 110] a \<longrightarrow> replace_escaped_newlines a = a)
   \<and> process_sse_line (str ''data:'' @ r) = process_data (data_payload (str ''data:'' @ r))"
  using process_data_text [of d] process_data_cong [of d d']
  by (simp add: replace_escaped_newlines_append replace_escaped_newlines_id
      process_sse_line_data)

theorem unescape_before_json_parse_witness:
  \<open>json_loads (str ''{"a":"x'' @ [BACKSLASH, 110] @ str ''y"}'')
      = Inr (JObject [(str ''a'', JString (str ''x'' @ [NL] @ str ''y''))])
   \<and> process_sse_line (str ''data: {"a":"x'' @ [BACKSLASH, 110] @ str ''y"}'')
      = Inr [TextPayload (str ''{"a":"x\<newline>y"}'')]
   \<and> process_data (str ''{"a":"x\<newline>y"}'') = Inr [TextPayload (str ''{"a":"x\<newline>y"}'')]\<close>
proof -
  let ?d = \<open>str ''{"a":"x'' @ [BACKSLASH, 110] @ str ''y"}''\<close>
  let ?d' = \<open>str ''{"a":"x\<newline>y"}''\<close>
  have r: "replace_escaped_newlines ?d = ?d'"
    by (simp add: str_def)
  have r': "replace_escaped_newlines ?d' = ?d'"
    by (simp add: str_def)
  have j: "json_loads ?d' = Inl JSONDecodeError"
    by (simp add: str_def json_eval)
  have j0: \<open>json_loads ?d = Inr (JObject [(str ''a'', JString (str ''x'' @ [NL] @ str ''y''))])\<close>
    by (simp add: str_def json_eval)
  have n: "?d \<noteq> str ''[DONE]''" "?d' \<noteq> str ''[DONE]''"
    by (simp_all add: str_def)
  have l: \<open>str ''data: {"a":"x'' @ [BACKSLASH, 110] @ str ''y"}'' = str ''data:'' @ SPACE # ?d\<close>
    by (simp add: str_def)
  have p: "data_payload (str ''data:'' @ SPACE # ?d) = ?d"
    by (simp add: data_payload_def str_def)
  note t = unescape_before_json_parse [of ?d ?d' "[]" "[]" "SPACE # ?d"]
  from t n r j have a: "process_data ?d = Inr [TextPayload ?d']"
    by simp
  from t n r r' have b: "process_data ?d' = process_data ?d"
    by simp
  from t have c: "process_sse_line (str ''data:'' @ SPACE # ?d) = process_data ?d"
    unfolding p by simp
  from a b c j0 show ?thesis
    unfolding l by simp
qed

text \<open>
  Claim C5. For every buffer and every way of cutting the input into chunks, feeding
  the chunks one at a time gives the events and the final state (the buffer left, or
  the exception) of feeding the whole input in one call; in particular feeding \<open>a @ b\<close>
  is feeding \<open>a\<close> and then \<open>b\<close> with the buffer carried over, and the events printed by
  \<open>parse_sse_stream\<close> do not depend on the chunking.
\<close>

theorem chunking_independent:
  "feed_all buffer chunks = feed buffer (concat chunks)
   \<and> feed buffer (a @ b) = feed_all buffer [a, b]
   \<and> parse_sse_stream chunks = parse_sse_stream [concat chunks]"
  by (simp add: feed_all_concat parse_sse_stream_def)

theorem chunking_independent_witness:
  "parse_sse_stream [str ''dat'', str ''a: [DONE]'', [NL], str ''da'', str ''ta:  hi\<newline>x'']
     = [Terminator, TextPayload (str '' hi'')]"
  using chunking_independent
    [of "[]" "[str ''dat'', str ''a: [DONE]'', [NL], str ''da'', str ''ta:  hi\<newline>x'']"]
  by (simp add: decoder_eval json_eval)

text \<open>
  Claim C6. After the five characters \<^verbatim>\<open>data:\<close>, at most one leading space is removed: the
  payload of \<^verbatim>\<open>data: \<close> followed by \<open>p\<close> is \<open>p\<close>, whatever \<open>p\<close> is; with two spaces after the
  colon the payload keeps one of them in front of \<open>p\<close>; with no space after the colon
  nothing is removed. The line is then processed as that payload.
\<close>

theorem data_prefix_one_space_stripped:
  "data_payload (str ''data: '' @ p) = p
   \<and> data_payload (str ''data:  '' @ p) = SPACE # p
   \<and> (\<not> startswith [SPACE] p \<longrightarrow> data_payload (str ''data:'' @ p) = p)
   \<and> process_sse_line (str ''data:'' @ r) = process_data (data_payload (str ''data:'' @ r))"
proof -
  have "data_payload (str ''data:'' @ SPACE # p) = p"
    "data_payload (str ''data:'' @ SPACE # SPACE # p) = SPACE # p"
    by (simp_all add: data_payload_data)
  then have "data_payload (str ''data: '' @ p) = p"
    "data_payload (str ''data:  '' @ p) = SPACE # p"
    by (simp_all add: str_def)
  then show ?thesis
    by (simp add: data_payload_data process_sse_line_data)
qed

theorem data_prefix_one_space_stripped_witness:
  "process_sse_line (str ''data:  indented text'') = Inr [TextPayload (str '' indented text'')]
   \<and> process_sse_line (str ''data: text'') = Inr [TextPayload (str ''text'')]
   \<and> process_sse_line (str ''data:text'') = Inr [TextPayload (str ''text'')]"
proof -
  have "process_data (str '' indented text'') = Inr [TextPayload (str '' indented text'')]"
    "process_data (str ''text'') = Inr [TextPayload (str ''text'')]"
    by (simp_all add: decoder_eval json_eval)
  moreover have "\<not> startswith [SPACE] (str ''text'')"
    by (simp add: str_def)
  moreover have "str ''data:  indented text'' = str ''data:'' @ str ''  indented text''"
    "str ''data:  indented text'' = str ''data:  '' @ str ''indented text''"
    "str '' indented text'' = SPACE # str ''indented text''"
    "str ''data: text'' = str ''data:'' @ str '' text''"
    "str ''data: text'' = str ''data: '' @ str ''text''"
    "str ''data:text'' = str ''data:'' @ str ''text''"
    by (simp_all add: str_def)
  ultimately show ?thesis
    using data_prefix_one_space_stripped [of "str ''indented text''" "str ''  indented text''"]
      data_prefix_one_space_stripped [of "str ''text''" "str '' text''"]
      data_prefix_one_space_stripped [of "str ''text''" "str ''text''"]
    by simp
qed



text \<open>
  Claim C8. A line that is not blank after trimming and starts with none of \<^verbatim>\<open>event:\<close>,
  \<^verbatim>\<open>data:\<close> and \<^verbatim>\<open>:\<close> is emitted as exactly one \<open>RawLine\<close> carrying the whole line; and
  when that line, with any trailing carriage returns and its newline, is fed to a fresh
  decoder in any chunking, that \<open>RawLine\<close> is all that is printed.
\<close>

theorem unknown_line_is_raw:
  assumes "strip line \<noteq> []"
    and "\<not> startswith (str ''event:'') line"
    and "\<not> startswith (str ''data:'') line"
    and "\<not> startswith (str '':'') line"
  shows "process_sse_line line = Inr [RawLine line]
     \<and> (\<forall>l chunks. NL \<notin> set l \<and> rstrip [CR] l = line \<and> concat chunks = l @ [NL]
           \<longrightarrow> parse_sse_stream chunks = [RawLine line])"
proof -
  have p: "process_sse_line line = Inr [RawLine line]"
    using assms by (simp add: process_sse_line_def)
  show ?thesis
  proof (intro conjI allI impI)
    show "process_sse_line line = Inr [RawLine line]" by (rule p)
  next
    fix l chunks
    assume a: "NL \<notin> set l \<and> rstrip [CR] l = line \<and> concat chunks = l @ [NL]"
    then have "feed_all [] chunks = ([RawLine line], Inr [])"
      using feed_all_one_line [of chunks l] p by simp
    then show "parse_sse_stream chunks = [RawLine line]"
      by (simp add: parse_sse_stream_def)
  qed
qed

theorem unknown_line_is_raw_witness:
  "process_sse_line (str ''retry: 10'') = Inr [RawLine (str ''retry: 10'')]
   \<and> parse_sse_stream [str ''ret'', str ''ry: 10'' @ [CR], [NL]] = [RawLine (str ''retry: 10'')]"
proof -
  have c: "concat [str ''ret'', str ''ry: 10'' @ [CR], [NL]] = (str ''retry: 10'' @ [CR]) @ [NL]"
    by (simp add: str_def)
  have r: "rstrip [CR] (str ''retry: 10'' @ [CR]) = str ''retry: 10''"
    by (simp add: str_def rstrip_def)
  have n: "NL \<notin> set (str ''retry: 10'' @ [CR])"
    by (simp add: str_def)
  have "strip (str ''retry: 10'') \<noteq> []"
    "\<not> startswith (str ''event:'') (str ''retry: 10'')"
    "\<not> startswith (str ''data:'') (str ''retry: 10'')"
    "\<not> startswith (str '':'') (str ''retry: 10'')"
    by (simp_all add: str_def strip_def isspace_def)
  from unknown_line_is_raw [OF this] n r c show ?thesis
    by blast
qed

text \<open>
  Claim C9. Feeding an empty chunk is a no-op: it leaves the buffer unchanged and emits
  no event, so an empty chunk anywhere in a sequence of chunks changes nothing.
\<close>

theorem feed_empty_chunk_noop:
  "feed buffer [] = ([], Inr buffer)
   \<and> feed_all buffer (before @ [] # after) = feed_all buffer (before @ after)"
  by (simp add: feed_Nil feed_all_concat)

theorem feed_empty_chunk_noop_witness:
  "feed (str ''dat'') [] = ([], Inr (str ''dat''))
   \<and> feed_all [] [str ''dat'', [], str ''a: [DONE]\<newline>''] = ([Terminator], Inr [])"
proof -
  have "feed_all [] [str ''dat'', str ''a: [DONE]\<newline>''] = ([Terminator], Inr [])"
    by (simp add: decoder_eval json_eval)
  then show ?thesis
    using feed_empty_chunk_noop [of "str ''dat''"]
      feed_empty_chunk_noop [of "[]" "[str ''dat'']" "[str ''a: [DONE]\<newline>'']"]
    by simp
qed

text \<open>
  Claim C10. All the carriage returns at the end of a line are removed before the line
  is classified, however many there are; the carriage returns elsewhere in the line
  stay. So a line \<open>body\<close> that does not itself end in a carriage return, followed by \<open>k\<close>
  carriage returns and the newline, is processed as \<open>body\<close>.
\<close>

theorem all_trailing_cr_stripped:
  assumes "NL \<notin> set body" and "body = [] \<or> last body \<noteq> CR"
  shows "rstrip [CR] (body @ replicate k CR) = body
     \<and> process_lines (body @ replicate k CR @ [NL]) =
         (case process_sse_line body of Inl e \<Rightarrow> ([], Inl e) | Inr evs \<Rightarrow> (evs, Inr []))"
proof -
  have r: "rstrip [CR] (body @ replicate k CR) = body"
    using assms(2) by (rule rstrip_replicate)
  have "NL \<notin> set (body @ replicate k CR)" using assms(1) by simp
  from process_lines_line [OF this, of "[]"] r show ?thesis
    by (simp add: process_lines_no_newline split: sum.splits)
qed

theorem all_trailing_cr_stripped_witness:
  "rstrip [CR] (str ''a'' @ [CR] @ str ''b'' @ replicate 3 CR) = str ''a'' @ [CR] @ str ''b''
   \<and> process_lines (str ''a'' @ [CR] @ str ''b'' @ [CR, CR, CR, NL])
       = ([RawLine (str ''a'' @ [CR] @ str ''b'')], Inr [])"
  using all_trailing_cr_stripped [of "str ''a'' @ [CR] @ str ''b''" 3]
  by (simp add: str_def strip_def isspace_def process_sse_line_def numeral_3_eq_3)

end
